theory Spec2Isabelle
  imports Complex_Main
begin

section \<open>The network manager of the visualisation backend\<close>

text \<open>
  The development follows \<^verbatim>\<open>Web-Interface/Backend/network_manager.py\<close>: the class
  \<^verbatim>\<open>NetworkManager\<close> keeps the latest report of every node in the dictionary
  \<^verbatim>\<open>self.nodes\<close> and the pending commands of every node in the dictionary
  \<^verbatim>\<open>self.pending_commands\<close>. Every method body runs under the one lock of the
  object, so a method is one atomic step on the pair of dictionaries; the lock itself is
  not modelled. The clock value read by \<^verbatim>\<open>time.time()\<close> is an argument of the
  methods that read it.
\<close>

subsection \<open>Python values\<close>

text \<open>
  The values a report can carry. A Python \<^verbatim>\<open>float\<close> is taken as the real number it
  denotes (no rounding, no NaN, no infinities); a \<^verbatim>\<open>dict\<close> with string keys is the
  list of its items in insertion order.
\<close>

datatype pyval =
    PNone
  | PBool bool
  | PInt int
  | PFloat real
  | PStr string
  | PList "pyval list"
  | PDict "(string \<times> pyval) list"

type_synonym pydict = "(string \<times> pyval) list"

text \<open>\<^verbatim>\<open>d.get(k, default)\<close>\<close>

definition py_get :: "pydict \<Rightarrow> string \<Rightarrow> pyval \<Rightarrow> pyval" where
  "py_get d k dflt = (case map_of d k of None \<Rightarrow> dflt | Some v \<Rightarrow> v)"

text \<open>
  \<^verbatim>\<open>d[k] = v\<close> on an insertion-ordered dictionary: an existing key keeps its place,
  a new key goes to the end.
\<close>

fun dict_set :: "('k \<times> 'v) list \<Rightarrow> 'k \<Rightarrow> 'v \<Rightarrow> ('k \<times> 'v) list" where
  "dict_set [] k v = [(k, v)]"
| "dict_set ((k', v') # rest) k v =
     (if k' = k then (k, v) # rest else (k', v') # dict_set rest k v)"

subsection \<open>The state of a manager\<close>

text \<open>The dictionary literal that \<^verbatim>\<open>update_node\<close> stores for a node.\<close>

record node_info =
  last_seen :: real
  routing_table :: pyval
  neighbors :: pyval
  ip :: pyval
  details :: pydict

record manager =
  nodes :: "(string \<times> node_info) list"
  pending_commands :: "string \<rightharpoonup> string list"

definition init :: manager where
  "init = \<lparr>nodes = [], pending_commands = Map.empty\<rparr>"

text \<open>The keys of \<^verbatim>\<open>self.nodes\<close>, in iteration order.\<close>

definition node_ids :: "manager \<Rightarrow> string list" where
  "node_ids s = map fst (nodes s)"

text \<open>A Python dictionary holds every key once.\<close>

definition wf :: "manager \<Rightarrow> bool" where
  "wf s = distinct (node_ids s)"

subsection \<open>update_node\<close>

definition make_info :: "real \<Rightarrow> pydict \<Rightarrow> node_info" where
  "make_info now data =
     \<lparr>last_seen = now,
      routing_table = py_get data ''routing_table'' (PDict []),
      neighbors = py_get data ''neighbors'' (PList []),
      ip = py_get data ''ip'' (PStr ''''),
      details = data\<rparr>"

definition update_node :: "real \<Rightarrow> string \<Rightarrow> pydict \<Rightarrow> manager \<Rightarrow> manager" where
  "update_node now node_id data s =
     s\<lparr>nodes := dict_set (nodes s) node_id (make_info now data),
       pending_commands :=
         (if node_id \<notin> dom (pending_commands s)
          then (pending_commands s)(node_id \<mapsto> [])
          else pending_commands s)\<rparr>"

subsection \<open>get_commands and queue_command\<close>

text \<open>\<^verbatim>\<open>self.pending_commands.get(node_id, [])\<close>\<close>

definition queue_of :: "manager \<Rightarrow> string \<Rightarrow> string list" where
  "queue_of s node_id = (case pending_commands s node_id of None \<Rightarrow> [] | Some q \<Rightarrow> q)"

definition get_commands :: "string \<Rightarrow> manager \<Rightarrow> string list \<times> manager" where
  "get_commands node_id s =
     (queue_of s node_id, s\<lparr>pending_commands := (pending_commands s)(node_id \<mapsto> [])\<rparr>)"

text \<open>\<^verbatim>\<open>pc.setdefault(nid, []).append(command)\<close>\<close>

definition append_command ::
  "string \<Rightarrow> (string \<rightharpoonup> string list) \<Rightarrow> string \<Rightarrow> (string \<rightharpoonup> string list)" where
  "append_command command pc nid =
     pc(nid \<mapsto> (case pc nid of None \<Rightarrow> [] | Some q \<Rightarrow> q) @ [command])"

definition queue_command :: "string \<Rightarrow> string \<Rightarrow> manager \<Rightarrow> manager" where
  "queue_command node_id command s =
     (if node_id = ''BROADCAST''
      then s\<lparr>pending_commands :=
               foldl (append_command command) (pending_commands s) (node_ids s)\<rparr>
      else s\<lparr>pending_commands := append_command command (pending_commands s) node_id\<rparr>)"

subsection \<open>get_node_details\<close>

text \<open>
  The stored dictionary of a node, as the Python object it is: the method returns that
  object itself, or a fresh empty dictionary for an unknown identifier.
\<close>

definition info_dict :: "node_info \<Rightarrow> pydict" where
  "info_dict i =
     [(''last_seen'', PFloat (last_seen i)),
      (''routing_table'', routing_table i),
      (''neighbors'', neighbors i),
      (''ip'', ip i),
      (''details'', PDict (details i))]"

definition get_node_details :: "string \<Rightarrow> manager \<Rightarrow> pydict \<times> manager" where
  "get_node_details node_id s =
     (case map_of (nodes s) node_id of None \<Rightarrow> [] | Some i \<Rightarrow> info_dict i, s)"

subsection \<open>get_topology\<close>

datatype error = TypeError

text \<open>
  \<^verbatim>\<open>for neighbor_id in neighbors\<close>: a list yields its elements, a string its characters,
  a dictionary its keys; any other value is not iterable.
\<close>

fun py_iter :: "pyval \<Rightarrow> error + pyval list" where
  "py_iter (PList xs) = Inr xs"
| "py_iter (PStr cs) = Inr (map (\<lambda>c. PStr [c]) cs)"
| "py_iter (PDict kvs) = Inr (map (\<lambda>kv. PStr (fst kv)) kvs)"
| "py_iter _ = Inl TypeError"

text \<open>Membership in a set hashes the value: lists and dictionaries cannot be hashed.\<close>

fun hashable :: "pyval \<Rightarrow> bool" where
  "hashable (PList _) = False"
| "hashable (PDict _) = False"
| "hashable _ = True"

text \<open>
  Python compares numbers by value across \<^verbatim>\<open>bool\<close>, \<^verbatim>\<open>int\<close> and \<^verbatim>\<open>float\<close>
  (\<^verbatim>\<open>True == 1 == 1.0\<close>); \<open>py_key\<close> maps a hashable value to the representative of
  its equality class, so that a Python set of such values is the HOL set of their keys.
\<close>

fun py_key :: "pyval \<Rightarrow> pyval" where
  "py_key (PBool b) = PFloat (if b then 1 else 0)"
| "py_key (PInt i) = PFloat (of_int i)"
| "py_key v = v"

definition digit_char :: "nat \<Rightarrow> char" where
  "digit_char d = char_of (48 + d)"

function show_nat :: "nat \<Rightarrow> string" where
  "show_nat n =
     (if n < 10 then [digit_char n] else show_nat (n div 10) @ [digit_char (n mod 10)])"
  by pat_completeness auto
termination
  by (relation "measure id") auto

definition show_int :: "int \<Rightarrow> string" where
  "show_int i = (if i < 0 then CHR ''-'' # show_nat (nat (- i)) else show_nat (nat i))"

text \<open>
  \<^verbatim>\<open>f"{neighbor_id}"\<close> for a hashable value. The text Python prints for a float comes
  from the interpreter, not from this repository: it is the parameter \<open>repr_float\<close>.
\<close>

fun py_str :: "(real \<Rightarrow> string) \<Rightarrow> pyval \<Rightarrow> string" where
  "py_str repr_float (PStr cs) = cs"
| "py_str repr_float PNone = ''None''"
| "py_str repr_float (PBool b) = (if b then ''True'' else ''False'')"
| "py_str repr_float (PInt i) = show_int i"
| "py_str repr_float (PFloat r) = repr_float r"
| "py_str repr_float _ = []"

record graph_node =
  gn_id :: pyval
  gn_name :: string
  gn_val :: int
  gn_color :: string

record graph_link =
  gl_source :: string
  gl_target :: pyval
  gl_color :: string

record topology =
  graph_nodes :: "graph_node list"
  graph_links :: "graph_link list"

text \<open>The entry of a reporting node, and the entry of a neighbor nobody reported.\<close>

definition known_entry :: "real \<Rightarrow> string \<Rightarrow> node_info \<Rightarrow> graph_node" where
  "known_entry current_time nid info =
     (let is_active = (current_time - last_seen info < 5)
      in \<lparr>gn_id = PStr nid, gn_name = nid,
          gn_val = (if is_active then 10 else 5),
          gn_color = (if is_active then ''#4CAF50'' else ''#9E9E9E'')\<rparr>)"

definition ghost_entry :: "(real \<Rightarrow> string) \<Rightarrow> pyval \<Rightarrow> graph_node" where
  "ghost_entry repr_float neighbor_id =
     \<lparr>gn_id = neighbor_id, gn_name = py_str repr_float neighbor_id @ '' (?)'',
      gn_val = 5, gn_color = ''#FFC107''\<rparr>"

definition link_entry :: "string \<Rightarrow> pyval \<Rightarrow> graph_link" where
  "link_entry nid neighbor_id =
     \<lparr>gl_source = nid, gl_target = neighbor_id, gl_color = ''#FFF''\<rparr>"

text \<open>
  The three local variables of the method that the loops update:
  \<^verbatim>\<open>known_ids\<close>, \<^verbatim>\<open>graph_nodes\<close> and \<^verbatim>\<open>graph_links\<close>.
\<close>

type_synonym build = "pyval set \<times> graph_node list \<times> graph_link list"

text \<open>The inner loop, over the neighbors of the node \<open>nid\<close>.\<close>

fun neighbor_loop ::
  "(real \<Rightarrow> string) \<Rightarrow> string \<Rightarrow> pyval list \<Rightarrow> build \<Rightarrow> error + build" where
  "neighbor_loop repr_float nid [] b = Inr b"
| "neighbor_loop repr_float nid (neighbor_id # rest) (known_ids, gnodes, glinks) =
     (if \<not> hashable neighbor_id then Inl TypeError
      else
        let (known_ids', gnodes') =
              (if py_key neighbor_id \<notin> known_ids \<and> neighbor_id \<noteq> PStr ''LOCAL''
               then (insert (py_key neighbor_id) known_ids,
                     gnodes @ [ghost_entry repr_float neighbor_id])
               else (known_ids, gnodes));
            glinks' =
              (if neighbor_id \<noteq> PStr ''LOCAL''
               then glinks @ [link_entry nid neighbor_id]
               else glinks)
        in neighbor_loop repr_float nid rest (known_ids', gnodes', glinks'))"

text \<open>The outer loop, over the items of \<^verbatim>\<open>self.nodes\<close>.\<close>

fun node_loop ::
  "(real \<Rightarrow> string) \<Rightarrow> real \<Rightarrow> (string \<times> node_info) list \<Rightarrow> build \<Rightarrow> error + build" where
  "node_loop repr_float current_time [] b = Inr b"
| "node_loop repr_float current_time ((nid, info) # rest) (known_ids, gnodes, glinks) =
     (case py_iter (neighbors info) of
        Inl e \<Rightarrow> Inl e
      | Inr ns \<Rightarrow>
          (case neighbor_loop repr_float nid ns
                  (known_ids, gnodes @ [known_entry current_time nid info], glinks) of
             Inl e \<Rightarrow> Inl e
           | Inr b \<Rightarrow> node_loop repr_float current_time rest b))"

text \<open>
  The method reads the clock once (\<open>current_time\<close>) and returns the two lists; an
  exception leaves the method without a result. The manager is returned as it was: no
  statement of the method assigns to \<^verbatim>\<open>self.nodes\<close> or \<^verbatim>\<open>self.pending_commands\<close>.
\<close>

definition get_topology ::
  "(real \<Rightarrow> string) \<Rightarrow> real \<Rightarrow> manager \<Rightarrow> (error + topology) \<times> manager" where
  "get_topology repr_float current_time s =
     (case node_loop repr_float current_time (nodes s)
             ((\<lambda>nid. PStr nid) ` set (node_ids s), [], []) of
        Inl e \<Rightarrow> Inl e
      | Inr (known_ids, gnodes, glinks) \<Rightarrow>
          Inr \<lparr>graph_nodes = gnodes, graph_links = glinks\<rparr>,
      s)"

subsection \<open>Reading a topology\<close>

text \<open>
  Notions used to state what a topology holds. \<open>iter_of\<close> is the sequence the inner loop
  runs over; \<open>listed\<close> are the neighbor occurrences of a node store other than the marker
  \<^verbatim>\<open>'LOCAL'\<close>; a ghost entry is recognised by the colour only it carries; \<open>iterable\<close>
  says that every stored neighbors value can be iterated and its elements hashed.
\<close>

definition iter_of :: "pyval \<Rightarrow> pyval list" where
  "iter_of v = (case py_iter v of Inl e \<Rightarrow> [] | Inr xs \<Rightarrow> xs)"

definition targets :: "node_info \<Rightarrow> pyval list" where
  "targets info = filter (\<lambda>v. v \<noteq> PStr ''LOCAL'') (iter_of (neighbors info))"

definition listed :: "(string \<times> node_info) list \<Rightarrow> pyval list" where
  "listed ns = concat (map (\<lambda>(nid, info). targets info) ns)"

definition is_ghost :: "graph_node \<Rightarrow> bool" where
  "is_ghost e = (gn_color e = ''#FFC107'')"



subsection \<open>Sequences of calls\<close>

text \<open>
  The five public methods, as the calls a transport layer can make, and the manager after
  a sequence of them. A call of \<^verbatim>\<open>get_topology\<close> that raises leaves the manager as it
  was, like one that returns.
\<close>

datatype call =
    Update_node real string pydict
  | Get_commands string
  | Queue_command string string
  | Get_topology real
  | Get_node_details string

fun call_step :: "(real \<Rightarrow> string) \<Rightarrow> manager \<Rightarrow> call \<Rightarrow> manager" where
  "call_step repr_float s (Update_node now node_id data) = update_node now node_id data s"
| "call_step repr_float s (Get_commands node_id) = snd (get_commands node_id s)"
| "call_step repr_float s (Queue_command node_id command) = queue_command node_id command s"
| "call_step repr_float s (Get_topology now) = snd (get_topology repr_float now s)"
| "call_step repr_float s (Get_node_details node_id) = snd (get_node_details node_id s)"

definition run_calls :: "(real \<Rightarrow> string) \<Rightarrow> manager \<Rightarrow> call list \<Rightarrow> manager" where
  "run_calls repr_float s cs = foldl (call_step repr_float) s cs"

text \<open>
  What the specification expects a drain to deliver: the commands enqueued for the node
  \<open>A\<close> since its last drain, in the order of the calls. A call enqueues \<open>command\<close> for
  \<open>A\<close> when it addresses \<open>A\<close>, or when it is a broadcast and \<open>A\<close> is in the node store
  at that moment. \<open>acc\<close> holds the commands pending before the sequence starts.
\<close>

fun enqueued_since_drain ::
  "(real \<Rightarrow> string) \<Rightarrow> string \<Rightarrow> manager \<Rightarrow> string list \<Rightarrow> call list \<Rightarrow> string list" where
  "enqueued_since_drain repr_float A s acc [] = acc"
| "enqueued_since_drain repr_float A s acc (c # cs) =
     enqueued_since_drain repr_float A (call_step repr_float s c)
       (case c of
          Get_commands node_id \<Rightarrow> (if node_id = A then [] else acc)
        | Queue_command node_id command \<Rightarrow>
            (if node_id = ''BROADCAST''
             then (if A \<in> set (node_ids s) then acc @ [command] else acc)
             else (if node_id = A then acc @ [command] else acc))
        | _ \<Rightarrow> acc)
       cs"

text \<open>Whether a sequence of calls holds no report of the node \<open>X\<close>.\<close>

fun reports :: "string \<Rightarrow> call \<Rightarrow> bool" where
  "reports X (Update_node now node_id data) = (node_id = X)"
| "reports X _ = False"

section \<open>Properties\<close>

subsection \<open>Dictionaries\<close>


lemma map_of_dict_set: "map_of (dict_set xs k v) = (map_of xs)(k \<mapsto> v)"
  by (induction xs) (auto simp: fun_eq_iff)

lemma keys_dict_set:
  "map fst (dict_set xs k v) = (if k \<in> fst ` set xs then map fst xs else map fst xs @ [k])"
  by (induction xs) force+

subsection \<open>The broadcast loop\<close>

lemma fanout_notin: "k \<notin> set ks \<Longrightarrow> foldl (append_command c) pc ks k = pc k"
  by (induction ks arbitrary: pc) (auto simp: append_command_def)

lemma fanout_in:
  "distinct ks \<Longrightarrow> k \<in> set ks \<Longrightarrow>
   foldl (append_command c) pc ks k = Some ((case pc k of None \<Rightarrow> [] | Some q \<Rightarrow> q) @ [c])"
proof (induction ks arbitrary: pc)
  case Nil
  then show ?case by simp
next
  case (Cons a ks)
  show ?case
  proof (cases "k = a")
    case True
    with Cons.prems have "k \<notin> set ks" by simp
    then have "foldl (append_command c) (append_command c pc a) ks k = append_command c pc a k"
      by (rule fanout_notin)
    moreover have "append_command c pc a a =
        Some ((case pc a of None \<Rightarrow> [] | Some q \<Rightarrow> q) @ [c])"
      by (simp add: append_command_def)
    ultimately show ?thesis using True by simp
  next
    case False
    with Cons.prems have "distinct ks" "k \<in> set ks" by simp_all
    from Cons.IH [OF this, of "append_command c pc a"]
    have "foldl (append_command c) (append_command c pc a) ks k =
          Some ((case append_command c pc a k of None \<Rightarrow> [] | Some q \<Rightarrow> q) @ [c])" .
    moreover have "append_command c pc a k = pc k"
      using False by (simp add: append_command_def)
    ultimately show ?thesis by simp
  qed
qed

lemma queue_of_broadcast:
  "wf s \<Longrightarrow> queue_of (queue_command ''BROADCAST'' c s) n =
     (if n \<in> set (node_ids s) then queue_of s n @ [c] else queue_of s n)"
  by (simp add: queue_command_def queue_of_def wf_def fanout_in fanout_notin)

lemma queue_of_direct:
  "A \<noteq> ''BROADCAST'' \<Longrightarrow> queue_of (queue_command A c s) n =
     (if n = A then queue_of s n @ [c] else queue_of s n)"
  by (simp add: queue_command_def queue_of_def append_command_def)

subsection \<open>Frame lemmas\<close>

lemma wf_update_node: "wf s \<Longrightarrow> wf (update_node now X data s)"
  by (auto simp: wf_def node_ids_def update_node_def keys_dict_set)

lemma node_ids_queue_command [simp]: "node_ids (queue_command n c s) = node_ids s"
  by (simp add: queue_command_def node_ids_def)

lemma nodes_queue_command [simp]: "nodes (queue_command n c s) = nodes s"
  by (simp add: queue_command_def)

lemma nodes_get_commands [simp]: "nodes (snd (get_commands n s)) = nodes s"
  by (simp add: get_commands_def)

lemma snd_get_topology [simp]: "snd (get_topology rf now s) = s"
  by (simp add: get_topology_def)

lemma snd_get_node_details [simp]: "snd (get_node_details n s) = s"
  by (simp add: get_node_details_def)

lemma wf_call_step: "wf s \<Longrightarrow> wf (call_step rf s c)"
  by (cases c) (simp_all add: wf_update_node, simp_all add: wf_def node_ids_def)

lemma wf_init: "wf init"
  by (simp add: wf_def init_def node_ids_def)

lemma pending_broadcast:
  "wf s \<Longrightarrow> pending_commands (queue_command ''BROADCAST'' c s) n =
     (if n \<in> set (node_ids s) then Some (queue_of s n @ [c]) else pending_commands s n)"
  by (simp add: queue_command_def queue_of_def wf_def fanout_in fanout_notin)

lemma broadcast_empty: "nodes s = [] \<Longrightarrow> queue_command ''BROADCAST'' c s = s"
  by (simp add: queue_command_def node_ids_def)

lemma broadcast_key_untouched:
  "''BROADCAST'' \<notin> set (node_ids s) \<Longrightarrow>
   pending_commands (queue_command n c s) ''BROADCAST'' = pending_commands s ''BROADCAST''"
  by (cases "n = ''BROADCAST''") (simp_all add: queue_command_def fanout_notin append_command_def)


lemma late_node:
  "wf s \<Longrightarrow> C \<notin> set (node_ids s) \<Longrightarrow>
   fst (get_commands C (update_node now C data (queue_command ''BROADCAST'' c s))) = queue_of s C"
proof -
  assume a: "wf s" "C \<notin> set (node_ids s)"
  have "fst (get_commands C (update_node now C data (queue_command ''BROADCAST'' c s)))
        = queue_of (queue_command ''BROADCAST'' c s) C"
    by (auto simp: get_commands_def update_node_def queue_of_def split: option.splits)
  also have "\<dots> = queue_of s C" using a by (simp add: queue_of_broadcast)
  finally show ?thesis .
qed


lemma queue_of_update_node [simp]: "queue_of (update_node now X data s) n = queue_of s n"
  by (auto simp: queue_of_def update_node_def split: option.splits)

lemma queue_of_drain:
  "queue_of (snd (get_commands X s)) n = (if n = X then [] else queue_of s n)"
  by (simp add: queue_of_def get_commands_def)

lemma fst_get_commands [simp]: "fst (get_commands X s) = queue_of s X"
  by (simp add: get_commands_def)

lemma queue_of_call_step:
  "wf s \<Longrightarrow> queue_of (call_step rf s c) A =
     (case c of
        Get_commands node_id \<Rightarrow> (if node_id = A then [] else queue_of s A)
      | Queue_command node_id command \<Rightarrow>
          (if node_id = ''BROADCAST''
           then (if A \<in> set (node_ids s) then queue_of s A @ [command] else queue_of s A)
           else (if node_id = A then queue_of s A @ [command] else queue_of s A))
      | _ \<Rightarrow> queue_of s A)"
  by (cases c) (simp_all add: queue_of_drain queue_of_broadcast queue_of_direct)

lemma queue_of_run_calls:
  "wf s \<Longrightarrow> queue_of (run_calls rf s cs) A = enqueued_since_drain rf A s (queue_of s A) cs"
proof (induction cs arbitrary: s)
  case Nil
  then show ?case by (simp add: run_calls_def)
next
  case (Cons c cs)
  have "wf (call_step rf s c)" using Cons.prems by (rule wf_call_step)
  from Cons.IH [OF this]
  have "queue_of (run_calls rf (call_step rf s c) cs) A =
        enqueued_since_drain rf A (call_step rf s c) (queue_of (call_step rf s c) A) cs" .
  then show ?case
    by (simp add: run_calls_def queue_of_call_step [OF Cons.prems])
qed

lemma direct_only:
  "A \<noteq> ''BROADCAST'' \<Longrightarrow>
   enqueued_since_drain rf A s acc (map (Queue_command A) cmds) = acc @ cmds"
  by (induction cmds arbitrary: s acc) simp_all


lemma entry_call_step:
  "\<not> reports X c \<Longrightarrow> map_of (nodes (call_step rf s c)) X = map_of (nodes s) X"
  by (cases c) (simp_all add: update_node_def map_of_dict_set)

lemma entry_run_calls:
  "list_all (\<lambda>c. \<not> reports X c) cs \<Longrightarrow>
   map_of (nodes (run_calls rf s cs)) X = map_of (nodes s) X"
proof (induction cs arbitrary: s)
  case Nil
  then show ?case by (simp add: run_calls_def)
next
  case (Cons c cs)
  then have "map_of (nodes (run_calls rf (call_step rf s c) cs)) X
             = map_of (nodes (call_step rf s c)) X" by simp
  also have "\<dots> = map_of (nodes s) X" using Cons.prems by (simp add: entry_call_step)
  finally show ?case by (simp add: run_calls_def)
qed

lemma entry_update_node: "map_of (nodes (update_node now X data s)) X = Some (make_info now data)"
  by (simp add: update_node_def map_of_dict_set)


subsection \<open>The loops of get_topology\<close>

lemma neighbor_loop_Cons:
  "neighbor_loop rf nid (v # vs) (K, gn, gl) =
     (if \<not> hashable v then Inl TypeError
      else if v = PStr ''LOCAL'' then neighbor_loop rf nid vs (K, gn, gl)
      else if py_key v \<in> K then neighbor_loop rf nid vs (K, gn, gl @ [link_entry nid v])
      else neighbor_loop rf nid vs
             (insert (py_key v) K, gn @ [ghost_entry rf v], gl @ [link_entry nid v]))"
  by simp

lemma neighbor_loop_links:
  "neighbor_loop rf nid ns (K, gn, gl) = Inr (K', gn', gl') \<Longrightarrow>
   gl' = gl @ map (link_entry nid) (filter (\<lambda>v. v \<noteq> PStr ''LOCAL'') ns)"
proof (induction ns arbitrary: K gn gl)
  case Nil
  then show ?case by simp
next
  case (Cons v vs)
  from Cons.prems show ?case
    unfolding neighbor_loop_Cons
    by (auto split: if_splits dest: Cons.IH)
qed

lemma neighbor_loop_nodes:
  "neighbor_loop rf nid ns (K, gn, gl) = Inr (K', gn', gl') \<Longrightarrow>
   \<exists>G. gn' = gn @ map (ghost_entry rf) G \<and>
       set G \<subseteq> {v \<in> set ns. v \<noteq> PStr ''LOCAL''} \<and>
       distinct (map py_key G) \<and>
       py_key ` set G \<inter> K = {} \<and>
       K' = K \<union> py_key ` set G \<and>
       py_key ` {v \<in> set ns. v \<noteq> PStr ''LOCAL''} \<subseteq> K'"
proof (induction ns arbitrary: K gn gl)
  case Nil
  then show ?case by simp
next
  case (Cons v vs)
  from Cons.prems have h: "hashable v"
    unfolding neighbor_loop_Cons by (auto split: if_splits)
  consider (loc) "v = PStr ''LOCAL''"
    | (old) "v \<noteq> PStr ''LOCAL''" "py_key v \<in> K"
    | (new) "v \<noteq> PStr ''LOCAL''" "py_key v \<notin> K" by blast
  then show ?case
  proof cases
    case loc
    with Cons.prems h have "neighbor_loop rf nid vs (K, gn, gl) = Inr (K', gn', gl')"
      unfolding neighbor_loop_Cons by simp
    from Cons.IH [OF this] obtain G where "gn' = gn @ map (ghost_entry rf) G"
       "set G \<subseteq> {v \<in> set vs. v \<noteq> PStr ''LOCAL''}"
       "distinct (map py_key G)" "py_key ` set G \<inter> K = {}" "K' = K \<union> py_key ` set G"
       "py_key ` {v \<in> set vs. v \<noteq> PStr ''LOCAL''} \<subseteq> K'" by blast
    with loc show ?thesis by (intro exI [of _ G]) auto
  next
    case old
    with Cons.prems h have "neighbor_loop rf nid vs (K, gn, gl @ [link_entry nid v]) = Inr (K', gn', gl')"
      unfolding neighbor_loop_Cons by simp
    from Cons.IH [OF this] obtain G where "gn' = gn @ map (ghost_entry rf) G"
       "set G \<subseteq> {v \<in> set vs. v \<noteq> PStr ''LOCAL''}"
       "distinct (map py_key G)" "py_key ` set G \<inter> K = {}" "K' = K \<union> py_key ` set G"
       "py_key ` {v \<in> set vs. v \<noteq> PStr ''LOCAL''} \<subseteq> K'" by blast
    with old show ?thesis by (intro exI [of _ G]) auto
  next
    case new
    with Cons.prems h have "neighbor_loop rf nid vs
        (insert (py_key v) K, gn @ [ghost_entry rf v], gl @ [link_entry nid v]) = Inr (K', gn', gl')"
      unfolding neighbor_loop_Cons by simp
    from Cons.IH [OF this] obtain G where G: "gn' = (gn @ [ghost_entry rf v]) @ map (ghost_entry rf) G"
       "set G \<subseteq> {v \<in> set vs. v \<noteq> PStr ''LOCAL''}"
       "distinct (map py_key G)" "py_key ` set G \<inter> insert (py_key v) K = {}"
       "K' = insert (py_key v) K \<union> py_key ` set G"
       "py_key ` {v \<in> set vs. v \<noteq> PStr ''LOCAL''} \<subseteq> K'" by blast
    show ?thesis
    proof (intro exI [of _ "v # G"] conjI)
      show "gn' = gn @ map (ghost_entry rf) (v # G)" using G(1) by simp
      show "set (v # G) \<subseteq> {u \<in> set (v # vs). u \<noteq> PStr ''LOCAL''}" using G(2) new by auto
      show "distinct (map py_key (v # G))" using G(3,4) by auto
      show "py_key ` set (v # G) \<inter> K = {}" using G(4) new by auto
      show "K' = K \<union> py_key ` set (v # G)" using G(5) by auto
      show "py_key ` {u \<in> set (v # vs). u \<noteq> PStr ''LOCAL''} \<subseteq> K'" using G(5,6) by auto
    qed
  qed
qed

lemma known_not_ghost [simp]: "\<not> is_ghost (known_entry now nid info)"
  by (simp add: is_ghost_def known_entry_def Let_def)

lemma ghost_is_ghost [simp]: "is_ghost (ghost_entry rf v)"
  by (simp add: is_ghost_def ghost_entry_def)

lemma filter_ghost_map [simp]:
  "filter is_ghost (map (ghost_entry rf) G) = map (ghost_entry rf) G"
  "filter (\<lambda>e. \<not> is_ghost e) (map (ghost_entry rf) G) = []"
  by (induction G) simp_all

lemma node_loop_Cons:
  "node_loop rf now ((nid, info) # rest) (K, gn, gl) = Inr b \<Longrightarrow>
   \<exists>K1 gn1 gl1.
     py_iter (neighbors info) = Inr (iter_of (neighbors info)) \<and>
     neighbor_loop rf nid (iter_of (neighbors info)) (K, gn @ [known_entry now nid info], gl)
       = Inr (K1, gn1, gl1) \<and>
     node_loop rf now rest (K1, gn1, gl1) = Inr b"
  by (auto simp: iter_of_def split: sum.splits)

lemma node_loop_links:
  "node_loop rf now ns (K, gn, gl) = Inr (K', gn', gl') \<Longrightarrow>
   gl' = gl @ concat (map (\<lambda>(nid, info). map (link_entry nid) (targets info)) ns)"
proof (induction ns arbitrary: K gn gl)
  case Nil
  then show ?case by simp
next
  case (Cons p ns)
  obtain nid info where p: "p = (nid, info)" by (cases p)
  from node_loop_Cons [OF Cons.prems [unfolded p]]
  obtain K1 gn1 gl1 where
    a: "neighbor_loop rf nid (iter_of (neighbors info)) (K, gn @ [known_entry now nid info], gl)
          = Inr (K1, gn1, gl1)"
    and b: "node_loop rf now ns (K1, gn1, gl1) = Inr (K', gn', gl')" by blast
  from neighbor_loop_links [OF a] Cons.IH [OF b] show ?case
    by (simp add: p targets_def)
qed

lemma node_loop_nodes:
  "node_loop rf now ns (K, gn, gl) = Inr (K', gn', gl') \<Longrightarrow>
   \<exists>G. filter is_ghost gn' = filter is_ghost gn @ map (ghost_entry rf) G \<and>
       filter (\<lambda>e. \<not> is_ghost e) gn' =
         filter (\<lambda>e. \<not> is_ghost e) gn @ map (\<lambda>(nid, info). known_entry now nid info) ns \<and>
       set G \<subseteq> set (listed ns) \<and>
       distinct (map py_key G) \<and>
       py_key ` set G \<inter> K = {} \<and>
       K' = K \<union> py_key ` set G \<and>
       py_key ` set (listed ns) \<subseteq> K'"
proof (induction ns arbitrary: K gn gl)
  case Nil
  then show ?case by (simp add: listed_def)
next
  case (Cons p ns)
  obtain nid info where p: "p = (nid, info)" by (cases p)
  from node_loop_Cons [OF Cons.prems [unfolded p]]
  obtain K1 gn1 gl1 where
    a: "neighbor_loop rf nid (iter_of (neighbors info)) (K, gn @ [known_entry now nid info], gl)
          = Inr (K1, gn1, gl1)"
    and b: "node_loop rf now ns (K1, gn1, gl1) = Inr (K', gn', gl')" by blast
  from neighbor_loop_nodes [OF a] obtain G1 where G1:
    "gn1 = (gn @ [known_entry now nid info]) @ map (ghost_entry rf) G1"
    "set G1 \<subseteq> set (targets info)"
    "distinct (map py_key G1)" "py_key ` set G1 \<inter> K = {}" "K1 = K \<union> py_key ` set G1"
    "py_key ` set (targets info) \<subseteq> K1"
    unfolding targets_def by auto
  from Cons.IH [OF b] obtain G2 where G2:
    "filter is_ghost gn' = filter is_ghost gn1 @ map (ghost_entry rf) G2"
    "filter (\<lambda>e. \<not> is_ghost e) gn' =
       filter (\<lambda>e. \<not> is_ghost e) gn1 @ map (\<lambda>(nid, info). known_entry now nid info) ns"
    "set G2 \<subseteq> set (listed ns)" "distinct (map py_key G2)" "py_key ` set G2 \<inter> K1 = {}"
    "K' = K1 \<union> py_key ` set G2" "py_key ` set (listed ns) \<subseteq> K'" by blast
  have l: "listed (p # ns) = targets info @ listed ns" by (simp add: listed_def p)
  show ?case
  proof (intro exI [of _ "G1 @ G2"] conjI)
    show "filter is_ghost gn' = filter is_ghost gn @ map (ghost_entry rf) (G1 @ G2)"
      using G2(1) G1(1) by simp
    show "filter (\<lambda>e. \<not> is_ghost e) gn' =
       filter (\<lambda>e. \<not> is_ghost e) gn @ map (\<lambda>(nid, info). known_entry now nid info) (p # ns)"
      using G2(2) G1(1) by (simp add: p)
    show "set (G1 @ G2) \<subseteq> set (listed (p # ns))" using G1(2) G2(3) unfolding l by auto
    show "distinct (map py_key (G1 @ G2))" using G1(3,5) G2(4,5) by auto
    show "py_key ` set (G1 @ G2) \<inter> K = {}" using G1(4,5) G2(5) by auto
    show "K' = K \<union> py_key ` set (G1 @ G2)" using G1(5) G2(6) by auto
    show "py_key ` set (listed (p # ns)) \<subseteq> K'" using G1(6) G2(6,7) unfolding l by auto
  qed
qed





lemma get_topology_Inr:
  "fst (get_topology rf now s) = Inr g \<Longrightarrow>
   \<exists>K'. node_loop rf now (nodes s) ((\<lambda>nid. PStr nid) ` set (node_ids s), [], [])
          = Inr (K', graph_nodes g, graph_links g)"
proof -
  assume a: "fst (get_topology rf now s) = Inr g"
  show ?thesis
  proof (cases "node_loop rf now (nodes s) ((\<lambda>nid. PStr nid) ` set (node_ids s), [], [])")
    case (Inl e)
    with a show ?thesis by (simp add: get_topology_def)
  next
    case (Inr b)
    obtain K gn gl where b: "b = (K, gn, gl)" by (cases b)
    from a Inr b have "g = \<lparr>graph_nodes = gn, graph_links = gl\<rparr>"
      by (simp add: get_topology_def)
    then show ?thesis using Inr b by simp
  qed
qed

lemma topology_links:
  "fst (get_topology rf now s) = Inr g \<Longrightarrow>
   graph_links g = concat (map (\<lambda>(nid, info). map (link_entry nid) (targets info)) (nodes s))"
  using get_topology_Inr [of rf now s g] node_loop_links [of rf now "nodes s" _ "[]" "[]"]
  by auto

lemma topology_known:
  "fst (get_topology rf now s) = Inr g \<Longrightarrow>
   filter (\<lambda>e. \<not> is_ghost e) (graph_nodes g)
     = map (\<lambda>(nid, info). known_entry now nid info) (nodes s)"
proof -
  assume "fst (get_topology rf now s) = Inr g"
  from get_topology_Inr [OF this] obtain K' where
    "node_loop rf now (nodes s) ((\<lambda>nid. PStr nid) ` set (node_ids s), [], [])
          = Inr (K', graph_nodes g, graph_links g)" by blast
  from node_loop_nodes [OF this] show ?thesis by auto
qed

lemma topology_ghosts:
  "fst (get_topology rf now s) = Inr g \<Longrightarrow>
   \<exists>G. filter is_ghost (graph_nodes g) = map (ghost_entry rf) G \<and>
       set G \<subseteq> set (listed (nodes s)) \<and>
       distinct (map py_key G) \<and>
       py_key ` set G = py_key ` set (listed (nodes s)) - (\<lambda>nid. PStr nid) ` set (node_ids s)"
proof -
  assume "fst (get_topology rf now s) = Inr g"
  from get_topology_Inr [OF this] obtain K' where
    "node_loop rf now (nodes s) ((\<lambda>nid. PStr nid) ` set (node_ids s), [], [])
          = Inr (K', graph_nodes g, graph_links g)" by blast
  from node_loop_nodes [OF this] obtain G where G:
    "filter is_ghost (graph_nodes g) = filter is_ghost [] @ map (ghost_entry rf) G"
    "set G \<subseteq> set (listed (nodes s))" "distinct (map py_key G)"
    "py_key ` set G \<inter> (\<lambda>nid. PStr nid) ` set (node_ids s) = {}"
    "K' = (\<lambda>nid. PStr nid) ` set (node_ids s) \<union> py_key ` set G"
    "py_key ` set (listed (nodes s)) \<subseteq> K'" by blast
  have "py_key ` set G = py_key ` set (listed (nodes s)) - (\<lambda>nid. PStr nid) ` set (node_ids s)"
    using G(2,4,5,6) by blast
  with G(1,2,3) show ?thesis by (intro exI [of _ G]) simp
qed

subsection \<open>Entries and links of a topology\<close>





lemma py_key_PStr [simp]: "py_key u = PStr b \<longleftrightarrow> u = PStr b"
  by (cases u) auto

lemma listed_iff:
  "v \<in> set (listed ns) \<longleftrightarrow>
   (\<exists>(a, info) \<in> set ns. v \<in> set (iter_of (neighbors info)) \<and> v \<noteq> PStr ''LOCAL'')"
  by (auto simp: listed_def targets_def)

lemma gn_id_ghost [simp]: "gn_id (ghost_entry rf v) = v"
  by (simp add: ghost_entry_def)

lemma gn_id_known [simp]: "gn_id (known_entry now nid info) = PStr nid"
  by (simp add: known_entry_def Let_def)



lemma gl_source_link [simp]: "gl_source (link_entry nid v) = nid"
  by (simp add: link_entry_def)

lemma gl_target_link [simp]: "gl_target (link_entry nid v) = v"
  by (simp add: link_entry_def)








lemma neighbor_loop_skips_marker:
  "neighbor_loop rf nid ns b = neighbor_loop rf nid (filter (\<lambda>v. v \<noteq> PStr ''LOCAL'') ns) b"
proof (induction ns arbitrary: b)
  case Nil
  show ?case by simp
next
  case (Cons v vs)
  obtain K gn gl where b: "b = (K, gn, gl)" by (cases b)
  show ?case
  proof (cases "v = PStr ''LOCAL''")
    case True
    then have "neighbor_loop rf nid (v # vs) (K, gn, gl) = neighbor_loop rf nid vs (K, gn, gl)"
      by (simp add: neighbor_loop_Cons del: neighbor_loop.simps)
    with True show ?thesis unfolding b using Cons.IH [of "(K, gn, gl)"] by simp
  next
    case False
    then have f: "filter (\<lambda>v. v \<noteq> PStr ''LOCAL'') (v # vs)
        = v # filter (\<lambda>v. v \<noteq> PStr ''LOCAL'') vs" by simp
    show ?thesis unfolding b f neighbor_loop_Cons
      using Cons.IH [of "(K, gn, gl @ [link_entry nid v])"]
        Cons.IH [of "(insert (py_key v) K, gn @ [ghost_entry rf v], gl @ [link_entry nid v])"]
        Cons.IH [of "(K, gn, gl)"]
      by (simp del: neighbor_loop.simps)
  qed
qed

lemma no_marker_target:
  "fst (get_topology rf now s) = Inr g \<Longrightarrow> l \<in> set (graph_links g) \<Longrightarrow>
   gl_target l \<noteq> PStr ''LOCAL''"
  by (auto simp: topology_links targets_def)

lemma marker_node:
  assumes g: "fst (get_topology rf now s) = Inr g" and e: "e \<in> set (graph_nodes g)"
    and i: "gn_id e = PStr ''LOCAL''"
  shows "\<not> is_ghost e \<and> ''LOCAL'' \<in> set (node_ids s)"
proof -
  from topology_ghosts [OF g] obtain G where G:
    "filter is_ghost (graph_nodes g) = map (ghost_entry rf) G" "set G \<subseteq> set (listed (nodes s))"
    by blast
  have ng: "\<not> is_ghost e"
  proof
    assume "is_ghost e"
    with e have "e \<in> set (filter is_ghost (graph_nodes g))" by simp
    then obtain u where "u \<in> set G" "e = ghost_entry rf u" unfolding G(1) by auto
    with G(2) i show False by (auto simp: listed_iff)
  qed
  with e have "e \<in> set (filter (\<lambda>e. \<not> is_ghost e) (graph_nodes g))" by simp
  then obtain n inf where "(n, inf) \<in> set (nodes s)" "e = known_entry now n inf"
    unfolding topology_known [OF g] by auto
  with i have "''LOCAL'' \<in> set (node_ids s)" by (force simp: node_ids_def)
  with ng show ?thesis by simp
qed



subsection \<open>Three small managers\<close>

text \<open>
  A node \<^verbatim>\<open>A\<close> that lists \<^verbatim>\<open>B\<close> and the marker; three nodes seen 4.9, 5.1 and 5
  seconds before the build; a node whose own identifier is the marker.
\<close>

lemma example_nodes:
  "nodes (update_node 1 ''A'' [(''neighbors'', PList [PStr ''B'', PStr ''LOCAL''])] init)
   = [(''A'', \<lparr>last_seen = 1, routing_table = PDict [],
               neighbors = PList [PStr ''B'', PStr ''LOCAL''], ip = PStr '''',
               details = [(''neighbors'', PList [PStr ''B'', PStr ''LOCAL''])]\<rparr>)]"
  by (simp add: update_node_def init_def make_info_def py_get_def)

lemma example_topology:
  "fst (get_topology rf 2
          (update_node 1 ''A'' [(''neighbors'', PList [PStr ''B'', PStr ''LOCAL''])] init))
   = Inr \<lparr>graph_nodes =
            [\<lparr>gn_id = PStr ''A'', gn_name = ''A'', gn_val = 10, gn_color = ''#4CAF50''\<rparr>,
             \<lparr>gn_id = PStr ''B'', gn_name = ''B (?)'', gn_val = 5, gn_color = ''#FFC107''\<rparr>],
          graph_links =
            [\<lparr>gl_source = ''A'', gl_target = PStr ''B'', gl_color = ''#FFF''\<rparr>]\<rparr>"
  by (simp add: get_topology_def node_ids_def example_nodes known_entry_def ghost_entry_def
      link_entry_def)


lemma example_marker:
  "fst (get_topology rf 2 (update_node 1 ''LOCAL'' [(''neighbors'', PList [PStr ''LOCAL'', PStr ''B''])] init)) = Inr \<lparr>graph_nodes =
            [\<lparr>gn_id = PStr ''LOCAL'', gn_name = ''LOCAL'', gn_val = 10, gn_color = ''#4CAF50''\<rparr>,
             \<lparr>gn_id = PStr ''B'', gn_name = ''B (?)'', gn_val = 5, gn_color = ''#FFC107''\<rparr>],
          graph_links =
            [\<lparr>gl_source = ''LOCAL'', gl_target = PStr ''B'', gl_color = ''#FFF''\<rparr>]\<rparr>"
  by (simp add: get_topology_def node_ids_def update_node_def init_def make_info_def py_get_def
      known_entry_def ghost_entry_def link_entry_def)





subsection \<open>Reports\<close>


text \<open>
  Claim C8. A report of the node \<open>X\<close> leaves \<open>X\<close> with a queue holding what was pending
  for it before (nothing, when it had no queue), and changes no other queue; so a command
  queued for \<open>X\<close> before its report is still delivered by the drain after it.
\<close>

theorem update_node_queue:
  "pending_commands (update_node now X data s) X = Some (queue_of s X) \<and>
   (\<forall>Y. Y \<noteq> X \<longrightarrow> pending_commands (update_node now X data s) Y = pending_commands s Y) \<and>
   (X \<noteq> ''BROADCAST'' \<longrightarrow>
      fst (get_commands X (update_node now X data (queue_command X c s))) = queue_of s X @ [c])"
  by (auto simp: update_node_def queue_of_def get_commands_def queue_command_def
      append_command_def split: option.splits)

theorem update_node_queue_witness:
  "pending_commands (update_node 1 ''A'' [] init) ''A'' = Some [] \<and>
   pending_commands (update_node 1 ''A'' [] init) ''B'' = None \<and>
   fst (get_commands ''A'' (update_node 1 ''A'' [] (queue_command ''A'' ''ping'' init)))
     = [''ping'']"
  using update_node_queue [of 1 "''A''" "[]" init "''ping''"]
  by (simp add: init_def queue_of_def update_node_def)

subsection \<open>Broadcast\<close>

text \<open>
  Claim C2. On a manager whose node store holds every key once, a broadcast appends the
  command to the queue of every node in the store at that moment and changes no other
  queue; a node \<open>C\<close> that reports only afterwards drains what it had pending before the
  broadcast, without the broadcast command.
\<close>

theorem broadcast_snapshot:
  "wf s \<Longrightarrow>
   (\<forall>n. pending_commands (queue_command ''BROADCAST'' c s) n =
      (if n \<in> set (node_ids s) then Some (queue_of s n @ [c]) else pending_commands s n)) \<and>
   (C \<notin> set (node_ids s) \<longrightarrow>
      fst (get_commands C (update_node now C data (queue_command ''BROADCAST'' c s)))
        = queue_of s C)"
  using pending_broadcast [of s c] late_node [of s C now data c] by blast


theorem broadcast_snapshot_witness:
  "wf (update_node 2 ''B'' [] (update_node 1 ''A'' [] init)) \<and>
   ''C'' \<notin> set (node_ids (update_node 2 ''B'' [] (update_node 1 ''A'' [] init))) \<and>
   fst (get_commands ''C'' (update_node 3 ''C'' []
      (queue_command ''BROADCAST'' ''x'' (update_node 2 ''B'' [] (update_node 1 ''A'' [] init))))) = [] \<and>
   pending_commands
      (queue_command ''BROADCAST'' ''x'' (update_node 2 ''B'' [] (update_node 1 ''A'' [] init))) ''A''
     = Some [''x''] \<and>
   pending_commands
      (queue_command ''BROADCAST'' ''x'' (update_node 2 ''B'' [] (update_node 1 ''A'' [] init))) ''B''
     = Some [''x'']"
proof -
  let ?s = "update_node 2 ''B'' [] (update_node 1 ''A'' [] init)"
  have ids: "node_ids ?s = [''A'', ''B'']"
    by (simp add: node_ids_def update_node_def init_def)
  have w: "wf ?s" unfolding wf_def ids by simp
  have q: "queue_of ?s ''A'' = []" "queue_of ?s ''B'' = []" "queue_of ?s ''C'' = []"
    by (simp_all add: queue_of_def update_node_def init_def)
  from broadcast_snapshot [OF w, of "''x''" "''C''" 3 "[]"]
  show ?thesis unfolding ids using w q by simp
qed

text \<open>
  Claim C10. \<^verbatim>\<open>queue_command("BROADCAST", c)\<close> is always the fan-out: with an empty
  node store it changes nothing; while no node named \<^verbatim>\<open>BROADCAST\<close> is in the store no
  call of \<^verbatim>\<open>queue_command\<close> changes the queue under that key; and once such a node is in
  the store, the call reaches it as it reaches every other stored node.
\<close>

theorem broadcast_shadows:
  "(nodes s = [] \<longrightarrow> queue_command ''BROADCAST'' c s = s) \<and>
   (''BROADCAST'' \<notin> set (node_ids s) \<longrightarrow>
      pending_commands (queue_command n c s) ''BROADCAST'' = pending_commands s ''BROADCAST'') \<and>
   (wf s \<longrightarrow> (\<forall>n. queue_of (queue_command ''BROADCAST'' c s) n =
      (if n \<in> set (node_ids s) then queue_of s n @ [c] else queue_of s n)))"
  using broadcast_empty [of s c] broadcast_key_untouched [of s n c] queue_of_broadcast [of s c]
  by blast


theorem broadcast_shadows_witness:
  "queue_command ''BROADCAST'' ''x'' init = init \<and>
   pending_commands (queue_command ''BROADCAST'' ''x'' init) ''BROADCAST'' = None \<and>
   wf init \<and> queue_of (queue_command ''BROADCAST'' ''x'' init) ''A'' = []"
  using broadcast_shadows [of init "''x''" "''BROADCAST''"] wf_init
  by (simp add: init_def node_ids_def queue_of_def)

subsection \<open>Draining a queue\<close>

text \<open>
  Claim C1. Take any manager with distinct node ids, drain the queue of \<open>A\<close>, and let any
  sequence of calls follow (reports, direct and broadcast commands to any node, drains of
  any node, reads). The next drain of \<open>A\<close> returns exactly the commands enqueued for \<open>A\<close>
  since its last drain, in the order of the calls. A drain leaves the queue of \<open>A\<close> empty,
  so a second drain right after it returns nothing. In particular, after direct commands
  \<open>cmds\<close> to \<open>A\<close> alone the drain returns \<open>cmds\<close>.
\<close>

theorem drain_exact:
  "wf s \<Longrightarrow>
   fst (get_commands A (run_calls rf (snd (get_commands A s)) cs))
     = enqueued_since_drain rf A (snd (get_commands A s)) [] cs \<and>
   pending_commands (snd (get_commands A s)) A = Some [] \<and>
   fst (get_commands A (snd (get_commands A s))) = [] \<and>
   (A \<noteq> ''BROADCAST'' \<longrightarrow>
      fst (get_commands A
            (run_calls rf (snd (get_commands A s)) (map (Queue_command A) cmds))) = cmds)"
proof -
  assume w: "wf s"
  let ?d = "snd (get_commands A s)"
  have wd: "wf ?d" using w by (simp add: wf_def node_ids_def)
  have e: "queue_of ?d A = []" by (simp add: queue_of_drain)
  have r: "\<And>cs. queue_of (run_calls rf ?d cs) A = enqueued_since_drain rf A ?d [] cs"
    using queue_of_run_calls [OF wd, of rf _ A] e by simp
  have p: "pending_commands ?d A = Some []" by (simp add: get_commands_def)
  show ?thesis using r e p by (simp add: direct_only)
qed

theorem drain_exact_witness:
  "wf (update_node 1 ''A'' [] init) \<and>
   fst (get_commands ''A''
     (run_calls (\<lambda>r. '''') (snd (get_commands ''A'' (update_node 1 ''A'' [] init)))
        [Queue_command ''A'' ''c1'', Queue_command ''BROADCAST'' ''b'',
         Queue_command ''B'' ''z'', Queue_command ''A'' ''c2'']))
     = [''c1'', ''b'', ''c2''] \<and>
   fst (get_commands ''A''
     (run_calls (\<lambda>r. '''') (snd (get_commands ''A'' (update_node 1 ''A'' [] init)))
        (map (Queue_command ''A'') [''c1'', ''c2''])))
     = [''c1'', ''c2'']"
proof -
  let ?s = "update_node 1 ''A'' [] init"
  have w: "wf ?s" by (simp add: wf_def node_ids_def update_node_def init_def)
  have ids: "node_ids (snd (get_commands ''A'' ?s)) = [''A'']"
    by (simp add: node_ids_def update_node_def init_def)
  from drain_exact [OF w, of "''A''" "\<lambda>r. ''''"
      "[Queue_command ''A'' ''c1'', Queue_command ''BROADCAST'' ''b'',
        Queue_command ''B'' ''z'', Queue_command ''A'' ''c2'']" "[''c1'', ''c2'']"]
  show ?thesis using w ids by simp
qed


subsection \<open>Reading a node\<close>

text \<open>
  Claim C7, as stated: the method returns the raw payload of the last report. It does not:
  it returns the dictionary stored for the node, which holds the payload under the key
  \<^verbatim>\<open>details\<close> beside four other keys. After the report \<^verbatim>\<open>{"ip": "10.0.0.1"}\<close> of
  node \<^verbatim>\<open>A\<close> the result differs from that payload.
\<close>

theorem node_details_payload_counterexample:
  "fst (get_node_details ''A'' (update_node 1 ''A'' [(''ip'', PStr ''10.0.0.1'')] init))
     \<noteq> [(''ip'', PStr ''10.0.0.1'')]"
  by (simp add: get_node_details_def update_node_def init_def info_dict_def)

text \<open>
  Claim C7, amended. After a report of \<open>X\<close> and any calls that hold no further report of
  \<open>X\<close>, the method returns the stored record of \<open>X\<close>: the time of that report, the
  routing table, neighbors and address taken from it, and the raw payload under the key
  \<^verbatim>\<open>details\<close>. For a node never reported since the start it returns the empty dictionary,
  not an error. The call leaves the manager unchanged.
\<close>

theorem node_details_record:
  "(list_all (\<lambda>c. \<not> reports X c) cs \<longrightarrow>
      fst (get_node_details X (run_calls rf (update_node now X data s) cs))
        = info_dict (make_info now data)) \<and>
   py_get (info_dict (make_info now data)) ''details'' PNone = PDict data \<and>
   (list_all (\<lambda>c. \<not> reports X c) cs \<longrightarrow>
      fst (get_node_details X (run_calls rf init cs)) = []) \<and>
   snd (get_node_details X s) = s"
proof -
  have a: "list_all (\<lambda>c. \<not> reports X c) cs \<Longrightarrow>
      fst (get_node_details X (run_calls rf (update_node now X data s) cs))
        = info_dict (make_info now data)"
    by (simp add: get_node_details_def entry_run_calls entry_update_node)
  have b: "py_get (info_dict (make_info now data)) ''details'' PNone = PDict data"
    by (simp add: py_get_def info_dict_def make_info_def)
  have c: "list_all (\<lambda>c. \<not> reports X c) cs \<Longrightarrow>
      fst (get_node_details X (run_calls rf init cs)) = []"
    by (simp add: get_node_details_def entry_run_calls init_def)
  show ?thesis using a b c by simp
qed

theorem node_details_record_witness:
  "list_all (\<lambda>c. \<not> reports ''A'' c) [Queue_command ''A'' ''x'', Update_node 2 ''B'' []] \<and>
   fst (get_node_details ''A''
     (run_calls (\<lambda>r. '''') (update_node 1 ''A'' [(''ip'', PStr ''10.0.0.1'')] init)
        [Queue_command ''A'' ''x'', Update_node 2 ''B'' []]))
     = [(''last_seen'', PFloat 1), (''routing_table'', PDict []), (''neighbors'', PList []),
        (''ip'', PStr ''10.0.0.1''), (''details'', PDict [(''ip'', PStr ''10.0.0.1'')])] \<and>
   fst (get_node_details ''A''
     (run_calls (\<lambda>r. '''') init [Queue_command ''A'' ''x'', Update_node 2 ''B'' []])) = []"
  using node_details_record [of "''A''" "[Queue_command ''A'' ''x'', Update_node 2 ''B'' []]"
      "\<lambda>r. ''''" 1 "[(''ip'', PStr ''10.0.0.1'')]" init]
  by (simp add: info_dict_def make_info_def py_get_def)


subsection \<open>Building the topology\<close>

text \<open>
  Claim C9. A call of \<^verbatim>\<open>get_topology\<close> leaves the node store and every queue as they
  were, and its result depends on the node store and the clock value only: two managers
  with the same node store give the same result at the same time, whatever their queues.
\<close>

theorem topology_pure:
  "snd (get_topology rf now s) = s \<and>
   (nodes s = nodes s' \<longrightarrow> fst (get_topology rf now s) = fst (get_topology rf now s'))"
  by (simp add: get_topology_def node_ids_def)

theorem topology_pure_witness:
  "nodes (update_node 1 ''A'' [(''neighbors'', PList [PStr ''B'', PStr ''LOCAL''])] init) = nodes (queue_command ''A'' ''x'' (update_node 1 ''A'' [(''neighbors'', PList [PStr ''B'', PStr ''LOCAL''])] init)) \<and>
   fst (get_topology (\<lambda>r. '''') 2 (queue_command ''A'' ''x'' (update_node 1 ''A'' [(''neighbors'', PList [PStr ''B'', PStr ''LOCAL''])] init))) = Inr \<lparr>graph_nodes =
            [\<lparr>gn_id = PStr ''A'', gn_name = ''A'', gn_val = 10, gn_color = ''#4CAF50''\<rparr>,
             \<lparr>gn_id = PStr ''B'', gn_name = ''B (?)'', gn_val = 5, gn_color = ''#FFC107''\<rparr>],
          graph_links =
            [\<lparr>gl_source = ''A'', gl_target = PStr ''B'', gl_color = ''#FFF''\<rparr>]\<rparr> \<and>
   snd (get_topology (\<lambda>r. '''') 2 (update_node 1 ''A'' [(''neighbors'', PList [PStr ''B'', PStr ''LOCAL''])] init)) = (update_node 1 ''A'' [(''neighbors'', PList [PStr ''B'', PStr ''LOCAL''])] init)"
  using topology_pure [of "(\<lambda>r. '''')" 2 "(update_node 1 ''A'' [(''neighbors'', PList [PStr ''B'', PStr ''LOCAL''])] init)" "queue_command ''A'' ''x'' (update_node 1 ''A'' [(''neighbors'', PList [PStr ''B'', PStr ''LOCAL''])] init)"]
    example_topology [of "(\<lambda>r. '''')"]
  by simp







text \<open>
  Claim C6. The inner loop gives the same result on a neighbor list and on that list
  without its occurrences of the marker \<^verbatim>\<open>'LOCAL'\<close>: an occurrence adds no ghost and no
  link. In a topology that \<^verbatim>\<open>get_topology\<close> returns no link has the marker as target, and
  a node entry carries the marker as identifier only if the marker is a key of the node
  store, and then it is the entry of that stored node, not a ghost.
\<close>

theorem marker_excluded:
  "neighbor_loop rf nid ns b
     = neighbor_loop rf nid (filter (\<lambda>v. v \<noteq> PStr ''LOCAL'') ns) b \<and>
   (fst (get_topology rf now s) = Inr g \<longrightarrow>
      (\<forall>l \<in> set (graph_links g). gl_target l \<noteq> PStr ''LOCAL'') \<and>
      (\<forall>e \<in> set (graph_nodes g). gn_id e = PStr ''LOCAL'' \<longrightarrow>
         \<not> is_ghost e \<and> ''LOCAL'' \<in> set (node_ids s)))"
  using neighbor_loop_skips_marker [of rf nid ns b] no_marker_target [of rf now s g]
    marker_node [of rf now s g]
  by blast

theorem marker_excluded_witness:
  "fst (get_topology (\<lambda>r. '''') 2 (update_node 1 ''LOCAL'' [(''neighbors'', PList [PStr ''LOCAL'', PStr ''B''])] init)) = Inr \<lparr>graph_nodes =
            [\<lparr>gn_id = PStr ''LOCAL'', gn_name = ''LOCAL'', gn_val = 10, gn_color = ''#4CAF50''\<rparr>,
             \<lparr>gn_id = PStr ''B'', gn_name = ''B (?)'', gn_val = 5, gn_color = ''#FFC107''\<rparr>],
          graph_links =
            [\<lparr>gl_source = ''LOCAL'', gl_target = PStr ''B'', gl_color = ''#FFF''\<rparr>]\<rparr> \<and>
   neighbor_loop (\<lambda>r. '''') ''LOCAL'' [PStr ''LOCAL'', PStr ''B''] ({PStr ''LOCAL''}, [], [])
     = neighbor_loop (\<lambda>r. '''') ''LOCAL'' [PStr ''B''] ({PStr ''LOCAL''}, [], []) \<and>
   ''LOCAL'' \<in> set (node_ids (update_node 1 ''LOCAL'' [(''neighbors'', PList [PStr ''LOCAL'', PStr ''B''])] init))"
  using marker_excluded [of "(\<lambda>r. '''')" "''LOCAL''" "[PStr ''LOCAL'', PStr ''B'']"
      "({PStr ''LOCAL''}, [], [])" 2 "(update_node 1 ''LOCAL'' [(''neighbors'', PList [PStr ''LOCAL'', PStr ''B''])] init)" "\<lparr>graph_nodes =
            [\<lparr>gn_id = PStr ''LOCAL'', gn_name = ''LOCAL'', gn_val = 10, gn_color = ''#4CAF50''\<rparr>,
             \<lparr>gn_id = PStr ''B'', gn_name = ''B (?)'', gn_val = 5, gn_color = ''#FFC107''\<rparr>],
          graph_links =
            [\<lparr>gl_source = ''LOCAL'', gl_target = PStr ''B'', gl_color = ''#FFF''\<rparr>]\<rparr>"]
    example_marker [of "(\<lambda>r. '''')"]
  by simp

end
